theory Spec2Isabelle
  imports Main
begin

section \<open>Topic.ts: a topic handle over an asynchronous connection\<close>

text \<open>
  The class \<^verbatim>\<open>Topic\<close> of \<^verbatim>\<open>src/Topic.ts\<close> keeps a promise of a publisher and a
  \<^verbatim>\<open>Map\<close> from callbacks to subscription handles. Its methods start requests on the
  connection (\<^verbatim>\<open>ros.rosImpl\<close>) and register \<^verbatim>\<open>then\<close> callbacks; what they achieve is
  decided later, when the connection settles a promise and the event loop runs the
  registered callbacks. The model therefore has three layers:
  \<^item> the fields of the Topic (a record);
  \<^item> the part of the JavaScript runtime the methods rely on: the promises handed out by
    the connection, the microtask queue, and the calls made on the connection and on its
    handles, recorded in order;
  \<^item> the events of a run: a method call, the connection settling a promise, the event
    loop running queued callbacks.

  The classes behind \<^verbatim>\<open>./Ros\<close> and \<^verbatim>\<open>./Impl\<close> are not part of the sources. They are
  parameters of the model: \<open>rosImpl\<close> says whether \<^verbatim>\<open>ros.rosImpl\<close> is defined, \<open>raises\<close>
  says which calls into them throw, and the events \<open>Resolve\<close> and \<open>Reject\<close> are theirs.
\<close>

subsection \<open>Data\<close>

text \<open>
  A callback, a handle (a \<^verbatim>\<open>Publisher\<close> or \<^verbatim>\<open>Subscription\<close> object) and a promise are
  known by their identity only.
\<close>

type_synonym callback = nat
type_synonym handle = nat
type_synonym promise = nat

text \<open>The calls that leave the Topic: on the connection and on the handles it returned.\<close>

datatype 'm call =
    CreatePublisher string string
  | CreateSubscription string callback
  | PublisherPublish handle 'm
  | PublisherUnadvertise handle
  | SubscriptionUnsubscribe handle

text \<open>
  The three arrow functions passed to \<^verbatim>\<open>then\<close>, with the variables they close over:
  line 43 (\<open>ThenPublish message\<close>), line 76 (\<open>ThenUnadvertise\<close>) and line 51
  (\<open>ThenSet callback\<close>).
\<close>

datatype 'm reaction =
    ThenPublish 'm
  | ThenUnadvertise
  | ThenSet callback

datatype 'm settled =
    Pending "'m reaction list"
  | Fulfilled handle
  | Rejected

datatype outcome = Returned | Threw

record Topic =
  name :: string
  messageType :: string
  publisher :: "promise option"
  subscriptions :: "(callback \<times> handle) list"

record 'm runtime = Topic +
  rosImpl :: bool
  raises :: "'m call \<Rightarrow> bool"
  promises :: "'m settled list"
  microtasks :: "('m reaction \<times> handle) list"
  trace :: "'m call list"

subsection \<open>The JavaScript \<^verbatim>\<open>Map\<close>, in insertion order\<close>

text \<open>
  \<^verbatim>\<open>Map.prototype.set\<close> replaces the value of a key that is present, in place, and
  appends a new key; \<^verbatim>\<open>delete\<close> removes the entry of the key; \<^verbatim>\<open>values()\<close> iterates in
  insertion order; \<^verbatim>\<open>get\<close> is \<open>map_of\<close>.
\<close>

fun map_set :: "'k \<Rightarrow> 'v \<Rightarrow> ('k \<times> 'v) list \<Rightarrow> ('k \<times> 'v) list" where
  "map_set k v [] = [(k, v)]"
| "map_set k v (e # es) = (if fst e = k then (k, v) # es else e # map_set k v es)"

fun map_delete :: "'k \<Rightarrow> ('k \<times> 'v) list \<Rightarrow> ('k \<times> 'v) list" where
  "map_delete k [] = []"
| "map_delete k (e # es) = (if fst e = k then es else e # map_delete k es)"

definition map_values :: "('k \<times> 'v) list \<Rightarrow> 'v list" where
  "map_values es = map snd es"

subsection \<open>Promises and the microtask queue\<close>

text \<open>A call that leaves the Topic is recorded before anything else happens.\<close>

definition invoke :: "'m call \<Rightarrow> 'm runtime \<Rightarrow> 'm runtime" where
  "invoke c w = w\<lparr>trace := trace w @ [c]\<rparr>"

text \<open>
  \<^verbatim>\<open>p.then(f)\<close> with no rejection handler, its result dropped: on a pending promise \<open>f\<close>
  joins the reactions, on a fulfilled one a job is queued, on a rejected one \<open>f\<close> never
  runs.
\<close>

definition promise_then :: "promise \<Rightarrow> 'm reaction \<Rightarrow> 'm runtime \<Rightarrow> 'm runtime" where
  "promise_then p k w =
     (if p < length (promises w) then
        (case promises w ! p of
           Pending ks \<Rightarrow> w\<lparr>promises := (promises w)[p := Pending (ks @ [k])]\<rparr>
         | Fulfilled h \<Rightarrow> w\<lparr>microtasks := microtasks w @ [(k, h)]\<rparr>
         | Rejected \<Rightarrow> w)
      else w)"

text \<open>
  The connection settles a promise once. Fulfilling queues the reactions in the order of
  their registration; rejecting drops them.
\<close>

definition resolve :: "promise \<Rightarrow> handle \<Rightarrow> 'm runtime \<Rightarrow> 'm runtime" where
  "resolve p h w =
     (if p < length (promises w) then
        (case promises w ! p of
           Pending ks \<Rightarrow>
             w\<lparr>promises := (promises w)[p := Fulfilled h],
               microtasks := microtasks w @ map (\<lambda>k. (k, h)) ks\<rparr>
         | Fulfilled h' \<Rightarrow> w
         | Rejected \<Rightarrow> w)
      else w)"

definition reject :: "promise \<Rightarrow> 'm runtime \<Rightarrow> 'm runtime" where
  "reject p w =
     (if p < length (promises w) then
        (case promises w ! p of
           Pending ks \<Rightarrow> w\<lparr>promises := (promises w)[p := Rejected]\<rparr>
         | Fulfilled h' \<Rightarrow> w
         | Rejected \<Rightarrow> w)
      else w)"

subsection \<open>The methods of Topic\<close>

text \<open>The constructor (lines 19 to 29) and the field initialisers (lines 16 and 17).\<close>

definition new_Topic :: "bool \<Rightarrow> ('m call \<Rightarrow> bool) \<Rightarrow> string \<Rightarrow> string \<Rightarrow> 'm runtime" where
  "new_Topic impl r n t =
     \<lparr>name = n, messageType = t, publisher = None, subscriptions = [],
      rosImpl = impl, raises = r, promises = [], microtasks = [], trace = []\<rparr>"

text \<open>
  \<^verbatim>\<open>advertise\<close> (lines 68 to 73) assigns whatever \<^verbatim>\<open>rosImpl?.createPublisher(...)\<close>
  evaluates to: a new promise, or \<^verbatim>\<open>undefined\<close> when there is no implementation. There
  is no test of the field before the assignment.
\<close>

definition advertise :: "'m runtime \<Rightarrow> outcome \<times> 'm runtime" where
  "advertise w =
     (if rosImpl w then
        (let c = CreatePublisher (name w) (messageType w);
             w1 = invoke c w
         in if raises w c then (Threw, w1)
            else (Returned, w1\<lparr>publisher := Some (length (promises w1)),
                               promises := promises w1 @ [Pending []]\<rparr>))
      else (Returned, w\<lparr>publisher := None\<rparr>))"

text \<open>\<^verbatim>\<open>publish\<close> (lines 39 to 46).\<close>

definition publish :: "'m \<Rightarrow> 'm runtime \<Rightarrow> outcome \<times> 'm runtime" where
  "publish message w =
     (case (if publisher w = None then advertise w else (Returned, w)) of
        (Threw, w1) \<Rightarrow> (Threw, w1)
      | (Returned, w1) \<Rightarrow>
          (case publisher w1 of
             None \<Rightarrow> (Returned, w1)
           | Some p \<Rightarrow> (Returned, promise_then p (ThenPublish message) w1)))"

text \<open>
  \<^verbatim>\<open>subscribe\<close> (lines 48 to 54): the promise of the subscription is not stored; its only
  reaction is registered at once.
\<close>

definition subscribe :: "callback \<Rightarrow> 'm runtime \<Rightarrow> outcome \<times> 'm runtime" where
  "subscribe cb w =
     (if rosImpl w then
        (let c = CreateSubscription (name w) cb;
             w1 = invoke c w
         in if raises w c then (Threw, w1)
            else (Returned, w1\<lparr>promises := promises w1 @ [Pending [ThenSet cb]]\<rparr>))
      else (Returned, w))"

text \<open>The loop of lines 61 to 63; a handle that throws ends it.\<close>

fun unsubscribe_each :: "handle list \<Rightarrow> 'm runtime \<Rightarrow> outcome \<times> 'm runtime" where
  "unsubscribe_each [] w = (Returned, w)"
| "unsubscribe_each (h # hs) w =
     (let c = SubscriptionUnsubscribe h;
          w1 = invoke c w
      in if raises w c then (Threw, w1) else unsubscribe_each hs w1)"

text \<open>\<^verbatim>\<open>unsubscribe\<close> (lines 56 to 66); a callback is a function, hence truthy.\<close>

fun unsubscribe :: "callback option \<Rightarrow> 'm runtime \<Rightarrow> outcome \<times> 'm runtime" where
  "unsubscribe (Some cb) w =
     (case map_of (subscriptions w) cb of
        None \<Rightarrow> (Returned, w\<lparr>subscriptions := map_delete cb (subscriptions w)\<rparr>)
      | Some h \<Rightarrow>
          (let c = SubscriptionUnsubscribe h;
               w1 = invoke c w
           in if raises w c then (Threw, w1)
              else (Returned, w1\<lparr>subscriptions := map_delete cb (subscriptions w1)\<rparr>)))"
| "unsubscribe None w =
     (case unsubscribe_each (map_values (subscriptions w)) w of
        (Threw, w1) \<Rightarrow> (Threw, w1)
      | (Returned, w1) \<Rightarrow> (Returned, w1\<lparr>subscriptions := []\<rparr>))"

text \<open>\<^verbatim>\<open>unadvertise\<close> (lines 75 to 80): nothing happens before the promise is fulfilled.\<close>

definition unadvertise :: "'m runtime \<Rightarrow> outcome \<times> 'm runtime" where
  "unadvertise w =
     (case publisher w of
        None \<Rightarrow> (Returned, w)
      | Some p \<Rightarrow> (Returned, promise_then p ThenUnadvertise w))"

subsection \<open>Running the registered callbacks\<close>

text \<open>
  The bodies of the three arrow functions. An exception inside one rejects the promise
  that \<^verbatim>\<open>then\<close> returned, which nobody holds: the rest of the body is skipped and nothing
  else changes.
\<close>

fun run_reaction :: "'m reaction \<Rightarrow> handle \<Rightarrow> 'm runtime \<Rightarrow> 'm runtime" where
  "run_reaction (ThenPublish message) h w = invoke (PublisherPublish h message) w"
| "run_reaction ThenUnadvertise h w =
     (let c = PublisherUnadvertise h;
          w1 = invoke c w
      in if raises w c then w1 else w1\<lparr>publisher := None\<rparr>)"
| "run_reaction (ThenSet cb) h w = w\<lparr>subscriptions := map_set cb h (subscriptions w)\<rparr>"

definition tick :: "'m runtime \<Rightarrow> 'm runtime" where
  "tick w =
     (case microtasks w of
        [] \<Rightarrow> w
      | (k, h) # q \<Rightarrow> run_reaction k h (w\<lparr>microtasks := q\<rparr>))"

text \<open>No reaction queues another one, so the queue is empty after as many ticks as it is long.\<close>

definition drain :: "'m runtime \<Rightarrow> 'm runtime" where
  "drain w = (tick ^^ length (microtasks w)) w"

subsection \<open>Runs\<close>

datatype 'm event =
    Publish 'm
  | Subscribe callback
  | Unsubscribe "callback option"
  | Advertise
  | Unadvertise
  | Resolve promise handle
  | Reject promise
  | SetImpl bool
  | Tick
  | Idle

fun step :: "'m event \<Rightarrow> 'm runtime \<Rightarrow> outcome \<times> 'm runtime" where
  "step (Publish message) w = publish message w"
| "step (Subscribe cb) w = subscribe cb w"
| "step (Unsubscribe cbo) w = unsubscribe cbo w"
| "step Advertise w = advertise w"
| "step Unadvertise w = unadvertise w"
| "step (Resolve p h) w = (Returned, resolve p h w)"
| "step (Reject p) w = (Returned, reject p w)"
| "step (SetImpl b) w = (Returned, w\<lparr>rosImpl := b\<rparr>)"
| "step Tick w = (Returned, tick w)"
| "step Idle w = (Returned, drain w)"

text \<open>An exception ends the caller's statement, not the program: the run goes on.\<close>

fun run :: "'m event list \<Rightarrow> 'm runtime \<Rightarrow> 'm runtime" where
  "run [] w = w"
| "run (e # es) w = run es (snd (step e w))"

subsection \<open>Predicates and a sample Topic used by the statements below\<close>

text \<open>
  \<open>inert cb w\<close>: the callback has no entry in the map and nothing in flight could give it
  one: no pending promise carries the reaction of a \<^verbatim>\<open>subscribe(cb)\<close>, and no queued job
  does.
\<close>

fun waiting_in :: "callback \<Rightarrow> 'm settled \<Rightarrow> bool" where
  "waiting_in cb (Pending ks) = (ThenSet cb \<in> set ks)"
| "waiting_in cb (Fulfilled h) = False"
| "waiting_in cb Rejected = False"

definition inert :: "callback \<Rightarrow> 'm runtime \<Rightarrow> bool" where
  "inert cb w =
     (map_of (subscriptions w) cb = None
      \<and> \<not> list_ex (waiting_in cb) (promises w)
      \<and> ThenSet cb \<notin> fst ` set (microtasks w))"

text \<open>
  The Topic that \<^verbatim>\<open>app.tsx\<close> constructs (lines 139 to 143), for the namespace \<^verbatim>\<open>ns\<close>, on a
  connection that has an implementation and whose calls all return.
\<close>

definition diagnosticsTopic :: "string runtime" where
  "diagnosticsTopic =
     new_Topic True (\<lambda>c. False) ''/ns/diagnostics_agg'' ''diagnostic_msgs/DiagnosticArray''"

section \<open>Basic facts\<close>

subsection \<open>The map\<close>

lemma map_delete_absent: "map_of es k = None \<Longrightarrow> map_delete k es = es"
  by (induction es) (auto split: if_splits)

lemma map_of_map_set: "map_of (map_set k v es) k = Some v"
  by (induction es) auto

lemma map_of_map_set_other: "k' \<noteq> k \<Longrightarrow> map_of (map_set k v es) k' = map_of es k'"
  by (induction es) auto

lemma map_set_twice: "map_set k v' (map_set k v es) = map_set k v' es"
  by (induction es) auto

lemma map_of_map_delete_None: "map_of es k' = None \<Longrightarrow> map_of (map_delete k es) k' = None"
  by (induction es) (auto split: if_splits)

subsection \<open>Lists\<close>

lemma count_list_map_inj: "inj f \<Longrightarrow> count_list (map f xs) (f x) = count_list xs x"
  by (induction xs) (auto simp: inj_def)

lemma count_list_distinct: "distinct xs \<Longrightarrow> x \<in> set xs \<Longrightarrow> count_list xs x = 1"
  by (induction xs) auto

lemma list_ex_update: "\<not> list_ex P xs \<Longrightarrow> \<not> P x \<Longrightarrow> \<not> list_ex P (xs[i := x])"
  by (auto simp add: list_ex_iff dest: set_update_subset_insert [THEN subsetD])

subsection \<open>Recording a call changes the trace only\<close>

lemma invoke_simps [simp]:
  "name (invoke c w) = name w"
  "messageType (invoke c w) = messageType w"
  "publisher (invoke c w) = publisher w"
  "subscriptions (invoke c w) = subscriptions w"
  "rosImpl (invoke c w) = rosImpl w"
  "raises (invoke c w) = raises w"
  "promises (invoke c w) = promises w"
  "microtasks (invoke c w) = microtasks w"
  "trace (invoke c w) = trace w @ [c]"
  by (simp_all add: invoke_def)

subsection \<open>Draining the queue\<close>

lemma microtasks_run_reaction [simp]: "microtasks (run_reaction k h w) = microtasks w"
  by (cases k) (simp_all add: Let_def)

lemma drain_empty: "microtasks w = [] \<Longrightarrow> drain w = w"
  by (simp add: drain_def)

lemma drain_step:
  assumes "microtasks w = (k, h) # q"
  shows "drain w = drain (run_reaction k h (w\<lparr>microtasks := q\<rparr>))"
proof -
  have t: "tick w = run_reaction k h (w\<lparr>microtasks := q\<rparr>)"
    using assms by (simp add: tick_def)
  have "drain w = (tick ^^ length q) (tick w)"
    using assms by (simp add: drain_def funpow_swap1)
  also have "\<dots> = drain (tick w)"
    by (simp add: drain_def t)
  finally show ?thesis by (simp add: t)
qed

text \<open>The queue is empty after \<open>drain\<close>: it runs every job, and no job adds one.\<close>

lemma microtasks_drain: "microtasks (drain w) = []"
proof (induction "microtasks w" arbitrary: w)
  case Nil
  then show ?case by (simp add: drain_empty)
next
  case (Cons j q)
  obtain k h where "j = (k, h)" by (cases j)
  with Cons.hyps(2) have m: "microtasks w = (k, h) # q" by simp
  have "q = microtasks (run_reaction k h (w\<lparr>microtasks := q\<rparr>))" by simp
  then have "microtasks (drain (run_reaction k h (w\<lparr>microtasks := q\<rparr>))) = []"
    by (rule Cons.hyps(1))
  then show ?case by (simp add: drain_step [OF m])
qed

lemma run_append: "run (es @ es') w = run es' (run es w)"
  by (induction es arbitrary: w) simp_all

subsection \<open>Calls that return\<close>

lemma advertise_ok:
  assumes "rosImpl w" "\<not> raises w (CreatePublisher (name w) (messageType w))"
  shows "advertise w =
     (Returned, w\<lparr>publisher := Some (length (promises w)),
                  promises := promises w @ [Pending []],
                  trace := trace w @ [CreatePublisher (name w) (messageType w)]\<rparr>)"
  using assms by (simp add: advertise_def Let_def invoke_def)

lemma subscribe_ok:
  assumes "rosImpl w" "\<not> raises w (CreateSubscription (name w) cb)"
  shows "subscribe cb w =
     (Returned, w\<lparr>promises := promises w @ [Pending [ThenSet cb]],
                  trace := trace w @ [CreateSubscription (name w) cb]\<rparr>)"
  using assms by (simp add: subscribe_def Let_def invoke_def)

lemma unsubscribe_each_ok:
  assumes "\<forall>h \<in> set hs. \<not> raises w (SubscriptionUnsubscribe h)"
  shows "unsubscribe_each hs w = (Returned, w\<lparr>trace := trace w @ map SubscriptionUnsubscribe hs\<rparr>)"
  using assms
proof (induction hs arbitrary: w)
  case Nil
  then show ?case by simp
next
  case (Cons h hs)
  have "unsubscribe_each (h # hs) w = unsubscribe_each hs (invoke (SubscriptionUnsubscribe h) w)"
    using Cons.prems by (simp add: Let_def)
  also have "\<dots> = (Returned, (invoke (SubscriptionUnsubscribe h) w)
        \<lparr>trace := trace (invoke (SubscriptionUnsubscribe h) w) @ map SubscriptionUnsubscribe hs\<rparr>)"
    using Cons.prems by (intro Cons.IH) simp
  finally show ?case by (simp add: invoke_def)
qed

subsection \<open>What the methods never touch\<close>

lemma promise_then_name [simp]:
  "name (promise_then p k w) = name w"
  "messageType (promise_then p k w) = messageType w"
  by (simp_all add: promise_then_def split: settled.splits)

lemma unsubscribe_each_name:
  "name (snd (unsubscribe_each hs w)) = name w
   \<and> messageType (snd (unsubscribe_each hs w)) = messageType w"
  by (induction hs arbitrary: w) (simp_all add: Let_def)

lemma run_reaction_name [simp]:
  "name (run_reaction k h w) = name w"
  "messageType (run_reaction k h w) = messageType w"
  by (cases k; simp add: Let_def)+

lemma tick_name [simp]:
  "name (tick w) = name w"
  "messageType (tick w) = messageType w"
  by (simp_all add: tick_def split: list.splits prod.splits)

lemma funpow_tick_name:
  "name ((tick ^^ n) w) = name w \<and> messageType ((tick ^^ n) w) = messageType w"
  by (induction n) simp_all

lemma step_name:
  "name (snd (step e w)) = name w \<and> messageType (snd (step e w)) = messageType w"
proof (cases e)
  case (Publish m)
  then show ?thesis
    by (simp add: publish_def advertise_def Let_def
        split: option.splits outcome.splits prod.splits if_splits)
next
  case (Subscribe cb)
  then show ?thesis by (simp add: subscribe_def Let_def)
next
  case (Unsubscribe cbo)
  then show ?thesis
    using unsubscribe_each_name [of "map_values (subscriptions w)" w]
    by (cases cbo) (auto simp add: Let_def split: option.splits outcome.splits prod.splits)
next
  case Advertise
  then show ?thesis by (simp add: advertise_def Let_def)
next
  case Unadvertise
  then show ?thesis by (simp add: unadvertise_def split: option.splits)
next
  case (Resolve p h)
  then show ?thesis by (simp add: resolve_def split: settled.splits)
next
  case (Reject p)
  then show ?thesis by (simp add: reject_def split: settled.splits)
next
  case (SetImpl b)
  then show ?thesis by simp
next
  case Tick
  then show ?thesis by simp
next
  case Idle
  then show ?thesis by (simp add: drain_def funpow_tick_name)
qed

lemma run_name: "name (run es w) = name w \<and> messageType (run es w) = messageType w"
  by (induction es arbitrary: w) (simp_all add: step_name)

lemma advertise_frame:
  "name (snd (advertise w)) = name w"
  "messageType (snd (advertise w)) = messageType w"
  "rosImpl (snd (advertise w)) = rosImpl w"
  by (simp_all add: advertise_def Let_def)

lemma advertise_trace:
  "rosImpl w \<Longrightarrow>
   trace (snd (advertise w)) = trace w @ [CreatePublisher (name w) (messageType w)]"
  by (simp add: advertise_def Let_def)

lemma unsubscribe_each_frame:
  "promises (snd (unsubscribe_each hs w)) = promises w
   \<and> microtasks (snd (unsubscribe_each hs w)) = microtasks w
   \<and> set (trace (snd (unsubscribe_each hs w)))
        \<subseteq> set (trace w) \<union> SubscriptionUnsubscribe ` set hs"
proof (induction hs arbitrary: w)
  case Nil
  then show ?case by simp
next
  case (Cons h hs)
  show ?case
    using Cons.IH [of "invoke (SubscriptionUnsubscribe h) w"]
    by (auto simp add: Let_def)
qed

text \<open>
  \<^verbatim>\<open>unsubscribe\<close> reads the map and nothing else: the promises and the queue are as before,
  and the only calls it adds go to handles that are in the map when it is called.
\<close>

lemma unsubscribe_frame:
  "promises (snd (unsubscribe cbo w)) = promises w
   \<and> microtasks (snd (unsubscribe cbo w)) = microtasks w
   \<and> set (trace (snd (unsubscribe cbo w)))
        \<subseteq> set (trace w) \<union> SubscriptionUnsubscribe ` snd ` set (subscriptions w)"
proof (cases cbo)
  case None
  show ?thesis
    using unsubscribe_each_frame [of "map_values (subscriptions w)" w]
    by (auto simp add: None map_values_def split: prod.splits outcome.splits)
next
  case (Some cb)
  have "map_of (subscriptions w) cb = Some h \<Longrightarrow> h \<in> snd ` set (subscriptions w)" for h
    by (force dest: map_of_SomeD)
  then show ?thesis
    by (auto simp add: Some Let_def split: option.splits)
qed

subsection \<open>Publishing on a pending publisher\<close>

lemma publish_pending:
  assumes "publisher w = Some p" "p < length (promises w)" "promises w ! p = Pending ks"
  shows "publish m w =
     (Returned, w\<lparr>promises := (promises w)[p := Pending (ks @ [ThenPublish m])]\<rparr>)"
  using assms by (simp add: publish_def promise_then_def)

lemma run_publish_pending:
  assumes "publisher w = Some p" "p < length (promises w)" "promises w ! p = Pending ks"
  shows "run (map Publish ms) w =
     w\<lparr>promises := (promises w)[p := Pending (ks @ map ThenPublish ms)]\<rparr>"
  using assms
proof (induction ms arbitrary: w ks)
  case Nil
  then show ?case by (simp add: list_update_same_conv [THEN iffD2])
next
  case (Cons m ms)
  let ?w1 = "w\<lparr>promises := (promises w)[p := Pending (ks @ [ThenPublish m])]\<rparr>"
  have "run (map Publish (m # ms)) w = run (map Publish ms) ?w1"
    using Cons.prems by (simp add: publish_pending)
  also have "\<dots> =
      ?w1\<lparr>promises := (promises ?w1)[p := Pending ((ks @ [ThenPublish m]) @ map ThenPublish ms)]\<rparr>"
    using Cons.prems by (intro Cons.IH) simp_all
  finally show ?case by simp
qed

lemma drain_publish_jobs:
  assumes "microtasks w = map (\<lambda>m. (ThenPublish m, h)) ms"
  shows "drain w = w\<lparr>microtasks := [], trace := trace w @ map (PublisherPublish h) ms\<rparr>"
  using assms
proof (induction ms arbitrary: w)
  case Nil
  then show ?case by (simp add: drain_empty)
next
  case (Cons m ms)
  let ?w1 = "run_reaction (ThenPublish m) h
               (w\<lparr>microtasks := map (\<lambda>m. (ThenPublish m, h)) ms\<rparr>)"
  have "drain w = drain ?w1"
    using Cons.prems by (simp add: drain_step)
  also have "\<dots> = ?w1\<lparr>microtasks := [], trace := trace ?w1 @ map (PublisherPublish h) ms\<rparr>"
    by (rule Cons.IH) simp
  finally show ?case by (simp add: invoke_def)
qed

lemma publish_order_pending:
  assumes "microtasks w = []" "publisher w = Some p" "p < length (promises w)"
    "promises w ! p = Pending (map ThenPublish ms0)"
  shows "trace (run (map Publish ms @ [Resolve p h, Idle]) w)
           = trace w @ map (PublisherPublish h) (ms0 @ ms)"
proof -
  let ?w1 = "w\<lparr>promises :=
                  (promises w)[p := Pending (map ThenPublish ms0 @ map ThenPublish ms)]\<rparr>"
  let ?w2 = "?w1\<lparr>promises := (promises w)[p := Fulfilled h],
                  microtasks := map (\<lambda>m. (ThenPublish m, h)) (ms0 @ ms)\<rparr>"
  have "run (map Publish ms) w = ?w1"
    using assms by (simp add: run_publish_pending)
  then have "run (map Publish ms @ [Resolve p h, Idle]) w = drain (resolve p h ?w1)"
    by (simp add: run_append)
  also have "resolve p h ?w1 = ?w2"
    using assms by (simp add: resolve_def comp_def)
  also have "drain ?w2 =
      ?w2\<lparr>microtasks := [], trace := trace ?w2 @ map (PublisherPublish h) (ms0 @ ms)\<rparr>"
    by (rule drain_publish_jobs) simp
  finally show ?thesis by simp
qed

subsection \<open>A callback with nothing in flight stays unregistered\<close>

lemma inert_invoke [simp]: "inert cb (invoke c w) = inert cb w"
  by (simp add: inert_def)

lemma inert_promise_then:
  assumes "inert cb w" "k \<noteq> ThenSet cb"
  shows "inert cb (promise_then p k w)"
proof (cases "p < length (promises w)")
  case False
  then show ?thesis using assms by (simp add: promise_then_def)
next
  case True
  show ?thesis
  proof (cases "promises w ! p")
    case (Pending ks)
    have "\<not> waiting_in cb (promises w ! p)"
      using assms(1) True by (auto simp add: inert_def list_ex_iff)
    then have "\<not> waiting_in cb (Pending (ks @ [k]))"
      using assms(2) Pending by simp
    then show ?thesis
      using assms(1) True Pending by (simp add: promise_then_def inert_def list_ex_update)
  next
    case (Fulfilled h)
    then show ?thesis using assms True by (simp add: promise_then_def inert_def)
  next
    case Rejected
    then show ?thesis using assms True by (simp add: promise_then_def)
  qed
qed

lemma inert_advertise: "inert cb w \<Longrightarrow> inert cb (snd (advertise w))"
  by (simp add: advertise_def Let_def inert_def)

lemma inert_publish:
  assumes "inert cb w"
  shows "inert cb (snd (publish m w))"
proof -
  let ?a = "if publisher w = None then advertise w else (Returned, w)"
  have "inert cb (snd ?a)"
    using assms by (simp add: inert_advertise)
  then show ?thesis
    by (cases ?a rule: prod.exhaust [where 'a = outcome])
       (auto simp add: publish_def inert_promise_then
          split: outcome.splits option.splits simp del: split_paired_All)
qed

lemma inert_subscribe: "inert cb w \<Longrightarrow> cb' \<noteq> cb \<Longrightarrow> inert cb (snd (subscribe cb' w))"
  by (simp add: subscribe_def Let_def inert_def)

lemma inert_unsubscribe_each: "inert cb w \<Longrightarrow> inert cb (snd (unsubscribe_each hs w))"
  by (induction hs arbitrary: w) (simp_all add: Let_def)

lemma inert_unsubscribe:
  assumes "inert cb w"
  shows "inert cb (snd (unsubscribe cbo w))"
proof (cases cbo)
  case None
  have "inert cb (snd (unsubscribe_each (map_values (subscriptions w)) w))"
    using assms by (rule inert_unsubscribe_each)
  then show ?thesis
    by (auto simp add: None inert_def split: prod.splits outcome.splits)
next
  case (Some cb')
  show ?thesis
    using assms
    by (auto simp add: Some inert_def Let_def invoke_def map_of_map_delete_None
        split: option.splits)
qed

lemma inert_unadvertise: "inert cb w \<Longrightarrow> inert cb (snd (unadvertise w))"
  by (simp add: unadvertise_def inert_promise_then split: option.splits)

lemma inert_resolve:
  assumes "inert cb w"
  shows "inert cb (resolve p h w)"
proof (cases "p < length (promises w)")
  case False
  then show ?thesis using assms by (simp add: resolve_def)
next
  case True
  show ?thesis
  proof (cases "promises w ! p")
    case (Pending ks)
    have "\<not> waiting_in cb (promises w ! p)"
      using assms True by (auto simp add: inert_def list_ex_iff)
    then have "ThenSet cb \<notin> set ks"
      using Pending by simp
    then show ?thesis
      using assms True Pending by (auto simp add: resolve_def inert_def list_ex_update)
  next
    case (Fulfilled h')
    then show ?thesis using assms True by (simp add: resolve_def)
  next
    case Rejected
    then show ?thesis using assms True by (simp add: resolve_def)
  qed
qed

lemma inert_reject: "inert cb w \<Longrightarrow> inert cb (reject p w)"
  by (auto simp add: reject_def inert_def list_ex_update split: settled.splits)

lemma inert_tick:
  assumes "inert cb w"
  shows "inert cb (tick w)"
proof (cases "microtasks w")
  case Nil
  then show ?thesis using assms by (simp add: tick_def)
next
  case (Cons j q)
  obtain k h where j: "j = (k, h)" by (cases j)
  have k: "k \<noteq> ThenSet cb"
    using assms Cons j by (auto simp add: inert_def)
  have q: "inert cb (w\<lparr>microtasks := q\<rparr>)"
    using assms Cons by (auto simp add: inert_def)
  have "inert cb (run_reaction k h (w\<lparr>microtasks := q\<rparr>))"
  proof (cases k)
    case (ThenPublish m)
    then show ?thesis using q by simp
  next
    case ThenUnadvertise
    then show ?thesis using q by (simp add: Let_def inert_def invoke_def)
  next
    case (ThenSet cb')
    then show ?thesis using q k by (simp add: inert_def map_of_map_set_other)
  qed
  then show ?thesis
    by (simp add: tick_def Cons j)
qed

lemma inert_funpow_tick: "inert cb w \<Longrightarrow> inert cb ((tick ^^ n) w)"
  by (induction n) (simp_all add: inert_tick)

lemma inert_step:
  assumes "inert cb w" "e \<noteq> Subscribe cb"
  shows "inert cb (snd (step e w))"
proof (cases e)
  case (SetImpl b)
  then show ?thesis using assms by (simp add: inert_def)
qed (use assms in \<open>simp_all add: inert_publish inert_subscribe inert_unsubscribe inert_advertise
      inert_unadvertise inert_resolve inert_reject inert_tick inert_funpow_tick drain_def\<close>)

lemma inert_run: "inert cb w \<Longrightarrow> Subscribe cb \<notin> set es \<Longrightarrow> inert cb (run es w)"
  by (induction es arbitrary: w) (auto simp add: inert_step)

section \<open>The claims\<close>

subsection \<open>C1: repeated advertise\<close>

text \<open>
  Claim C1, as stated: for any sequence of \<^verbatim>\<open>advertise()\<close> calls with no \<^verbatim>\<open>unadvertise()\<close>
  in between, exactly one \<^verbatim>\<open>createPublisher\<close> request reaches the connection. It fails on
  the code: two calls on a new Topic issue two requests.
\<close>

theorem advertise_twice_two_requests:
  "trace (run [Advertise, Advertise]
            (new_Topic True (\<lambda>c. False) ''/t'' ''T'' :: string runtime))
     = [CreatePublisher ''/t'' ''T'', CreatePublisher ''/t'' ''T'']
   \<and> count_list (trace (run [Advertise, Advertise]
            (new_Topic True (\<lambda>c. False) ''/t'' ''T'' :: string runtime)))
        (CreatePublisher ''/t'' ''T'') \<noteq> 1"
  by (simp add: new_Topic_def advertise_def Let_def)

text \<open>
  Claim C1, amended: while the connection has an implementation, every \<^verbatim>\<open>advertise()\<close> call
  issues one \<^verbatim>\<open>createPublisher\<close> request, whatever the publisher field holds, so \<open>n\<close> calls
  issue exactly \<open>n\<close> requests and nothing else; a call whose request returns stores the
  new, pending promise in place of the previous publisher. The test of the field is in
  \<^verbatim>\<open>publish\<close> (line 40): with a publisher stored, \<^verbatim>\<open>publish\<close> issues no request.
\<close>

theorem advertise_requests_every_call:
  assumes "rosImpl w"
  shows "trace (run (replicate n Advertise) w)
           = trace w @ replicate n (CreatePublisher (name w) (messageType w))
       \<and> (\<not> raises w (CreatePublisher (name w) (messageType w)) \<longrightarrow>
            publisher (snd (advertise w)) = Some (length (promises w))
          \<and> promises (snd (advertise w)) = promises w @ [Pending []])
       \<and> (publisher w \<noteq> None \<longrightarrow> trace (snd (publish m w)) = trace w)"
proof -
  have g: "trace (snd (publish m w)) = trace w" if "publisher w \<noteq> None"
    using that by (auto simp add: publish_def promise_then_def split: settled.splits)
  have "rosImpl v \<Longrightarrow>
        trace (run (replicate n Advertise) v)
          = trace v @ replicate n (CreatePublisher (name v) (messageType v))"
    for v :: "'a runtime"
  proof (induction n arbitrary: v)
    case 0
    then show ?case by simp
  next
    case (Suc n)
    have "trace (run (replicate (Suc n) Advertise) v)
            = trace (run (replicate n Advertise) (snd (advertise v)))"
      by simp
    also have "\<dots> = trace (snd (advertise v))
                      @ replicate n (CreatePublisher (name v) (messageType v))"
      using Suc.IH [of "snd (advertise v)"] Suc.prems by (simp add: advertise_frame)
    also have "\<dots> = trace v @ replicate (Suc n) (CreatePublisher (name v) (messageType v))"
      using Suc.prems by (simp add: advertise_trace replicate_app_Cons_same)
    finally show ?case .
  qed
  then show ?thesis
    using assms g by (simp add: advertise_ok)
qed

theorem advertise_requests_every_call_witness:
  "rosImpl diagnosticsTopic
   \<and> trace (run (replicate 3 Advertise) diagnosticsTopic)
       = replicate 3 (CreatePublisher ''/ns/diagnostics_agg'' ''diagnostic_msgs/DiagnosticArray'')
   \<and> publisher (snd (advertise diagnosticsTopic)) = Some 0
   \<and> publisher (run [Advertise] diagnosticsTopic) \<noteq> None
   \<and> trace (snd (publish ''m'' (run [Advertise] diagnosticsTopic)))
       = trace (run [Advertise] diagnosticsTopic)"
  using advertise_requests_every_call [where w = diagnosticsTopic and n = 3]
    advertise_requests_every_call
    [where w = "run [Advertise] diagnosticsTopic" and n = 0 and m = "''m''"]
  by (simp add: diagnosticsTopic_def new_Topic_def advertise_def Let_def invoke_def)

subsection \<open>C2: subscribing the same callback twice\<close>

text \<open>
  Claim C2, as stated: when \<^verbatim>\<open>subscribe(cb)\<close> is called twice before either request
  resolves, the superseded handle receives an \<^verbatim>\<open>unsubscribe\<close> call, or the second request
  is rejected. It fails on the code: both requests are fulfilled, the entry of the
  callback ends up with the second handle, and the first handle, 10, is never
  unsubscribed.
\<close>

theorem double_subscribe_orphans_first_handle:
  "subscriptions (run [Subscribe 0, Subscribe 0, Resolve 0 10, Resolve 1 11, Idle]
      (new_Topic True (\<lambda>c. False) ''/t'' ''T'' :: string runtime)) = [(0, 11)]
   \<and> promises (run [Subscribe 0, Subscribe 0, Resolve 0 10, Resolve 1 11, Idle]
      (new_Topic True (\<lambda>c. False) ''/t'' ''T'' :: string runtime))
       = [Fulfilled 10, Fulfilled 11]
   \<and> SubscriptionUnsubscribe 10 \<notin>
       set (trace (run [Subscribe 0, Subscribe 0, Resolve 0 10, Resolve 1 11, Idle]
         (new_Topic True (\<lambda>c. False) ''/t'' ''T'' :: string runtime)))"
  by (simp add: new_Topic_def subscribe_def Let_def invoke_def resolve_def drain_def tick_def)

text \<open>
  Claim C2, amended: when \<^verbatim>\<open>subscribe(cb)\<close> is called twice before either request
  resolves, then after both have resolved the map holds one entry for \<open>cb\<close>, bound to
  the handle that resolved last; the Topic has made the two \<^verbatim>\<open>createSubscription\<close> requests
  and no other call, so the handle that resolved first is not unsubscribed.
\<close>

theorem double_subscribe_last_resolution_wins:
  assumes "rosImpl w" "\<not> raises w (CreateSubscription (name w) cb)" "microtasks w = []"
  shows "subscriptions (run [Subscribe cb, Subscribe cb,
            Resolve (length (promises w)) h1, Resolve (Suc (length (promises w))) h2, Idle] w)
           = map_set cb h2 (subscriptions w)
       \<and> trace (run [Subscribe cb, Subscribe cb,
            Resolve (length (promises w)) h1, Resolve (Suc (length (promises w))) h2, Idle] w)
           = trace w @ [CreateSubscription (name w) cb, CreateSubscription (name w) cb]
       \<and> subscriptions (run [Subscribe cb, Subscribe cb,
            Resolve (Suc (length (promises w))) h2, Resolve (length (promises w)) h1, Idle] w)
           = map_set cb h1 (subscriptions w)
       \<and> trace (run [Subscribe cb, Subscribe cb,
            Resolve (Suc (length (promises w))) h2, Resolve (length (promises w)) h1, Idle] w)
           = trace w @ [CreateSubscription (name w) cb, CreateSubscription (name w) cb]"
  using assms
  by (simp add: subscribe_ok resolve_def nth_append list_update_append drain_def tick_def
      map_set_twice)

theorem double_subscribe_last_resolution_wins_witness:
  "rosImpl diagnosticsTopic
   \<and> \<not> raises diagnosticsTopic (CreateSubscription (name diagnosticsTopic) 0)
   \<and> microtasks diagnosticsTopic = []
   \<and> subscriptions (run [Subscribe 0, Subscribe 0, Resolve 0 10, Resolve 1 11, Idle]
        diagnosticsTopic) = [(0, 11)]
   \<and> subscriptions (run [Subscribe 0, Subscribe 0, Resolve 1 11, Resolve 0 10, Idle]
        diagnosticsTopic) = [(0, 10)]"
  using double_subscribe_last_resolution_wins
    [where w = diagnosticsTopic and cb = 0 and ?h1.0 = 10 and ?h2.0 = 11]
  by (simp add: diagnosticsTopic_def new_Topic_def)

subsection \<open>C3: repeated unadvertise\<close>

text \<open>
  Claim C3, as stated: with a pending or resolved publisher, two \<^verbatim>\<open>unadvertise()\<close> calls
  in a row produce at most one \<^verbatim>\<open>unadvertise\<close> call on the handle. It fails on the code:
  the field is cleared by the callback, not by the call, so both calls register a
  callback on the same promise and the handle, 7, is called twice.
\<close>

theorem unadvertise_twice_two_calls:
  "count_list (trace (run [Advertise, Resolve 0 7, Idle, Unadvertise, Unadvertise, Idle]
      (new_Topic True (\<lambda>c. False) ''/t'' ''T'' :: string runtime)))
     (PublisherUnadvertise 7) = 2"
  by (simp add: new_Topic_def advertise_def unadvertise_def promise_then_def Let_def
      invoke_def resolve_def drain_def tick_def)

text \<open>
  Claim C3, amended: \<^verbatim>\<open>unadvertise()\<close> never raises, and is a no-op when no publisher is
  stored. Once the callback of a first \<^verbatim>\<open>unadvertise()\<close> has run (the publisher was
  fulfilled before the call, or is fulfilled after it) the handle has received one
  \<^verbatim>\<open>unadvertise\<close> call, the publisher field is empty, and a second \<^verbatim>\<open>unadvertise()\<close> is
  a no-op.
\<close>

theorem unadvertise_after_completion_noop:
  assumes "publisher w = Some p" "p < length (promises w)" "microtasks w = []"
    "\<not> raises w (PublisherUnadvertise h)"
  shows "fst (unadvertise v) = Returned
       \<and> (publisher v = None \<longrightarrow> unadvertise v = (Returned, v))
       \<and> (promises w ! p = Fulfilled h \<longrightarrow>
            publisher (run [Unadvertise, Idle] w) = None
          \<and> trace (run [Unadvertise, Idle] w) = trace w @ [PublisherUnadvertise h]
          \<and> step Unadvertise (run [Unadvertise, Idle] w)
              = (Returned, run [Unadvertise, Idle] w))
       \<and> (promises w ! p = Pending [] \<longrightarrow>
            publisher (run [Unadvertise, Resolve p h, Idle] w) = None
          \<and> trace (run [Unadvertise, Resolve p h, Idle] w) = trace w @ [PublisherUnadvertise h]
          \<and> step Unadvertise (run [Unadvertise, Resolve p h, Idle] w)
              = (Returned, run [Unadvertise, Resolve p h, Idle] w))"
proof -
  have "fst (unadvertise v) = Returned"
    by (simp add: unadvertise_def split: option.splits)
  moreover have "publisher v = None \<longrightarrow> unadvertise v = (Returned, v)"
    by (simp add: unadvertise_def)
  ultimately show ?thesis
    using assms
    by (simp add: unadvertise_def promise_then_def resolve_def drain_def tick_def Let_def
        invoke_def)
qed

theorem unadvertise_after_completion_noop_witness:
  "fst (unadvertise diagnosticsTopic) = Returned
   \<and> publisher diagnosticsTopic = None
   \<and> unadvertise diagnosticsTopic = (Returned, diagnosticsTopic)
   \<and> publisher (run [Advertise, Resolve 0 7, Idle] diagnosticsTopic) = Some 0
   \<and> promises (run [Advertise, Resolve 0 7, Idle] diagnosticsTopic) ! 0 = Fulfilled 7
   \<and> microtasks (run [Advertise, Resolve 0 7, Idle] diagnosticsTopic) = []
   \<and> \<not> raises (run [Advertise, Resolve 0 7, Idle] diagnosticsTopic) (PublisherUnadvertise 7)
   \<and> trace (run [Unadvertise, Idle] (run [Advertise, Resolve 0 7, Idle] diagnosticsTopic))
       = [CreatePublisher ''/ns/diagnostics_agg'' ''diagnostic_msgs/DiagnosticArray'',
          PublisherUnadvertise 7]
   \<and> step Unadvertise (run [Unadvertise, Idle] (run [Advertise, Resolve 0 7, Idle] diagnosticsTopic))
       = (Returned, run [Unadvertise, Idle] (run [Advertise, Resolve 0 7, Idle] diagnosticsTopic))
   \<and> publisher (run [Advertise] diagnosticsTopic) = Some 0
   \<and> promises (run [Advertise] diagnosticsTopic) ! 0 = Pending []
   \<and> trace (run [Unadvertise, Resolve 0 7, Idle] (run [Advertise] diagnosticsTopic))
       = [CreatePublisher ''/ns/diagnostics_agg'' ''diagnostic_msgs/DiagnosticArray'',
          PublisherUnadvertise 7]
   \<and> publisher (run [Unadvertise, Resolve 0 7, Idle] (run [Advertise] diagnosticsTopic)) = None"
  using unadvertise_after_completion_noop
    [where w = "run [Advertise, Resolve 0 7, Idle] diagnosticsTopic" and p = 0 and h = 7
       and v = diagnosticsTopic]
    unadvertise_after_completion_noop
    [where w = "run [Advertise] diagnosticsTopic" and p = 0 and h = 7 and v = diagnosticsTopic]
  by (simp add: diagnosticsTopic_def new_Topic_def advertise_def Let_def invoke_def
      resolve_def drain_def)

subsection \<open>C4: the order of published messages\<close>

text \<open>
  Claim C4: messages published before the publisher resolves reach the handle in the
  order of the \<^verbatim>\<open>publish\<close> calls, all behind the one promise of the publisher. On a quiet
  Topic with no publisher, the first \<^verbatim>\<open>publish\<close> issues the only \<^verbatim>\<open>createPublisher\<close>
  request; once that promise is fulfilled with \<open>h\<close> and the queue has run, the calls made
  are that request followed by \<open>publish\<close> on \<open>h\<close> for each message, in order. With a pending
  publisher that already carries the messages \<open>ms0\<close>, the new ones follow them.
\<close>

theorem publish_order_preserved:
  assumes "microtasks w = []"
  shows "(publisher w = None \<and> rosImpl w
            \<and> \<not> raises w (CreatePublisher (name w) (messageType w)) \<and> ms \<noteq> [] \<longrightarrow>
            trace (run (map Publish ms @ [Resolve (length (promises w)) h, Idle]) w)
              = trace w @ CreatePublisher (name w) (messageType w) # map (PublisherPublish h) ms)
       \<and> (publisher w = Some p \<and> p < length (promises w)
            \<and> promises w ! p = Pending (map ThenPublish ms0) \<longrightarrow>
            trace (run (map Publish ms @ [Resolve p h, Idle]) w)
              = trace w @ map (PublisherPublish h) (ms0 @ ms))"
proof (intro conjI impI)
  assume a: "publisher w = None \<and> rosImpl w
               \<and> \<not> raises w (CreatePublisher (name w) (messageType w)) \<and> ms \<noteq> []"
  then obtain m ms' where ms: "ms = m # ms'" by (cases ms) auto
  let ?p = "length (promises w)"
  let ?w1 = "w\<lparr>publisher := Some ?p,
                promises := promises w @ [Pending [ThenPublish m]],
                trace := trace w @ [CreatePublisher (name w) (messageType w)]\<rparr>"
  have first: "snd (publish m w) = ?w1"
    using a by (simp add: publish_def advertise_ok promise_then_def)
  have "trace (run (map Publish ms' @ [Resolve ?p h, Idle]) ?w1)
          = trace ?w1 @ map (PublisherPublish h) ([m] @ ms')"
    using assms by (intro publish_order_pending) simp_all
  then show "trace (run (map Publish ms @ [Resolve ?p h, Idle]) w)
              = trace w @ CreatePublisher (name w) (messageType w) # map (PublisherPublish h) ms"
    by (simp add: ms first)
next
  assume "publisher w = Some p \<and> p < length (promises w)
            \<and> promises w ! p = Pending (map ThenPublish ms0)"
  then show "trace (run (map Publish ms @ [Resolve p h, Idle]) w)
               = trace w @ map (PublisherPublish h) (ms0 @ ms)"
    using assms by (simp add: publish_order_pending)
qed

theorem publish_order_preserved_witness:
  "microtasks diagnosticsTopic = []
   \<and> publisher diagnosticsTopic = None \<and> rosImpl diagnosticsTopic
   \<and> trace (run [Publish ''a'', Publish ''b'', Publish ''c'', Resolve 0 7, Idle] diagnosticsTopic)
       = [CreatePublisher ''/ns/diagnostics_agg'' ''diagnostic_msgs/DiagnosticArray'',
          PublisherPublish 7 ''a'', PublisherPublish 7 ''b'', PublisherPublish 7 ''c'']
   \<and> microtasks (run [Publish ''z''] diagnosticsTopic) = []
   \<and> publisher (run [Publish ''z''] diagnosticsTopic) = Some 0
   \<and> promises (run [Publish ''z''] diagnosticsTopic) ! 0 = Pending (map ThenPublish [''z''])
   \<and> trace (run [Publish ''a'', Publish ''b'', Resolve 0 7, Idle]
               (run [Publish ''z''] diagnosticsTopic))
       = [CreatePublisher ''/ns/diagnostics_agg'' ''diagnostic_msgs/DiagnosticArray'',
          PublisherPublish 7 ''z'', PublisherPublish 7 ''a'', PublisherPublish 7 ''b'']"
  using publish_order_preserved
    [where w = diagnosticsTopic and ms = "[''a'', ''b'', ''c'']" and h = 7 and p = 0
       and ?ms0.0 = "[]"]
    publish_order_preserved
    [where w = "run [Publish ''z''] diagnosticsTopic" and ms = "[''a'', ''b'']" and h = 7
       and p = 0 and ?ms0.0 = "[''z'']"]
  by (simp add: diagnosticsTopic_def new_Topic_def publish_def advertise_def Let_def
      invoke_def promise_then_def)

subsection \<open>C5: publishing after unadvertise\<close>

text \<open>
  Claim C5: after \<^verbatim>\<open>advertise()\<close> and a completed \<^verbatim>\<open>unadvertise()\<close> the publisher field is
  empty, and a \<^verbatim>\<open>publish(m)\<close> issues a new \<^verbatim>\<open>createPublisher\<close> request and waits on the new
  promise: the message goes to the handle \<open>h'\<close> of the second request, not to the
  unadvertised \<open>h\<close>. Both orders are covered: \<^verbatim>\<open>unadvertise()\<close> before the first promise is
  fulfilled, and after.
\<close>

theorem publish_after_unadvertise_readvertises:
  assumes "rosImpl w" "\<not> raises w (CreatePublisher (name w) (messageType w))"
    "\<not> raises w (PublisherUnadvertise h)" "microtasks w = []"
  shows "publisher (run [Advertise, Unadvertise, Resolve (length (promises w)) h, Idle] w) = None
       \<and> publisher (run [Advertise, Unadvertise, Resolve (length (promises w)) h, Idle,
                          Publish m] w)
           = Some (Suc (length (promises w)))
       \<and> trace (run [Advertise, Unadvertise, Resolve (length (promises w)) h, Idle, Publish m,
                      Resolve (Suc (length (promises w))) h', Idle] w)
           = trace w @ [CreatePublisher (name w) (messageType w), PublisherUnadvertise h,
                        CreatePublisher (name w) (messageType w), PublisherPublish h' m]
       \<and> publisher (run [Advertise, Resolve (length (promises w)) h, Idle, Unadvertise, Idle] w)
           = None
       \<and> publisher (run [Advertise, Resolve (length (promises w)) h, Idle, Unadvertise, Idle,
                          Publish m] w)
           = Some (Suc (length (promises w)))
       \<and> trace (run [Advertise, Resolve (length (promises w)) h, Idle, Unadvertise, Idle,
                      Publish m, Resolve (Suc (length (promises w))) h', Idle] w)
           = trace w @ [CreatePublisher (name w) (messageType w), PublisherUnadvertise h,
                        CreatePublisher (name w) (messageType w), PublisherPublish h' m]"
  using assms
  by (simp add: advertise_ok publish_def unadvertise_def promise_then_def resolve_def
      drain_def tick_def Let_def invoke_def nth_append list_update_append)

theorem publish_after_unadvertise_readvertises_witness:
  "rosImpl diagnosticsTopic \<and> microtasks diagnosticsTopic = []
   \<and> \<not> raises diagnosticsTopic (PublisherUnadvertise 7)
   \<and> trace (run [Advertise, Unadvertise, Resolve 0 7, Idle, Publish ''m'', Resolve 1 8, Idle]
        diagnosticsTopic)
       = [CreatePublisher ''/ns/diagnostics_agg'' ''diagnostic_msgs/DiagnosticArray'',
          PublisherUnadvertise 7,
          CreatePublisher ''/ns/diagnostics_agg'' ''diagnostic_msgs/DiagnosticArray'',
          PublisherPublish 8 ''m'']"
  using publish_after_unadvertise_readvertises
    [where w = diagnosticsTopic and h = 7 and h' = 8 and m = "''m''"]
  by (simp add: diagnosticsTopic_def new_Topic_def)

subsection \<open>C6: unsubscribing everything\<close>

text \<open>
  Claim C6, as stated: with resolved subscriptions for two distinct callbacks,
  \<^verbatim>\<open>unsubscribe()\<close> with no argument empties the map and each handle receives exactly one
  \<^verbatim>\<open>unsubscribe\<close> call. It fails on the code when a handle's \<^verbatim>\<open>unsubscribe\<close> throws: the
  loop of lines 61 to 63 has no \<^verbatim>\<open>try\<close>, so the exception leaves \<^verbatim>\<open>unsubscribe()\<close> before
  \<^verbatim>\<open>clear()\<close>. Here handle 10 throws: the call ends with the exception, both entries are
  still in the map, and handle 11 has received no call.
\<close>

theorem unsubscribe_all_stops_at_throwing_handle:
  "subscriptions (run [Subscribe 1, Subscribe 2, Resolve 0 10, Resolve 1 11, Idle]
      (new_Topic True (\<lambda>c. c = SubscriptionUnsubscribe 10) ''/t'' ''T'' :: string runtime))
     = [(1, 10), (2, 11)]
   \<and> fst (unsubscribe None
        (run [Subscribe 1, Subscribe 2, Resolve 0 10, Resolve 1 11, Idle]
           (new_Topic True (\<lambda>c. c = SubscriptionUnsubscribe 10) ''/t'' ''T'' :: string runtime)))
     = Threw
   \<and> subscriptions (run [Subscribe 1, Subscribe 2, Resolve 0 10, Resolve 1 11, Idle,
                          Unsubscribe None]
      (new_Topic True (\<lambda>c. c = SubscriptionUnsubscribe 10) ''/t'' ''T'' :: string runtime))
     = [(1, 10), (2, 11)]
   \<and> count_list (trace (run [Subscribe 1, Subscribe 2, Resolve 0 10, Resolve 1 11, Idle,
                               Unsubscribe None]
      (new_Topic True (\<lambda>c. c = SubscriptionUnsubscribe 10) ''/t'' ''T'' :: string runtime)))
        (SubscriptionUnsubscribe 11) = 0"
  by (simp add: new_Topic_def subscribe_def Let_def invoke_def resolve_def drain_def tick_def
      map_values_def)

text \<open>
  Claim C6, amended: provided the \<^verbatim>\<open>unsubscribe\<close> method of every handle in the map returns,
  \<^verbatim>\<open>unsubscribe()\<close> with no argument calls \<^verbatim>\<open>unsubscribe\<close> on the handle of every entry, in
  insertion order, and empties the map; when the handles are distinct objects each
  receives exactly one call. With no entries the call changes nothing.
\<close>

theorem unsubscribe_all_clears:
  assumes "\<forall>h \<in> set (map_values (subscriptions w)). \<not> raises w (SubscriptionUnsubscribe h)"
  shows "unsubscribe None w =
           (Returned,
            w\<lparr>subscriptions := [],
              trace := trace w @ map SubscriptionUnsubscribe (map_values (subscriptions w))\<rparr>)
       \<and> (distinct (map_values (subscriptions w)) \<longrightarrow>
            (\<forall>h \<in> set (map_values (subscriptions w)).
               count_list (drop (length (trace w)) (trace (snd (unsubscribe None w))))
                 (SubscriptionUnsubscribe h) = 1))
       \<and> (subscriptions w = [] \<longrightarrow> unsubscribe None w = (Returned, w))"
proof -
  have e: "unsubscribe None w =
           (Returned,
            w\<lparr>subscriptions := [],
              trace := trace w @ map SubscriptionUnsubscribe (map_values (subscriptions w))\<rparr>)"
    using assms by (simp add: unsubscribe_each_ok)
  have i: "inj (SubscriptionUnsubscribe :: handle \<Rightarrow> 'a call)"
    by (simp add: inj_def)
  have c: "count_list (drop (length (trace w)) (trace (snd (unsubscribe None w))))
                 (SubscriptionUnsubscribe h) = 1"
    if "distinct (map_values (subscriptions w))" "h \<in> set (map_values (subscriptions w))" for h
    using that
    by (simp add: e count_list_map_inj [OF i] count_list_distinct del: unsubscribe.simps)
  have z: "unsubscribe None w = (Returned, w)" if "subscriptions w = []"
    using that by (simp add: map_values_def)
  from e c z show ?thesis by blast
qed

theorem unsubscribe_all_clears_witness:
  "subscriptions (run [Subscribe 1, Subscribe 2, Resolve 0 10, Resolve 1 11, Idle]
      diagnosticsTopic) = [(1, 10), (2, 11)]
   \<and> \<not> raises (run [Subscribe 1, Subscribe 2, Resolve 0 10, Resolve 1 11, Idle]
                diagnosticsTopic) (SubscriptionUnsubscribe 10)
   \<and> \<not> raises (run [Subscribe 1, Subscribe 2, Resolve 0 10, Resolve 1 11, Idle]
                diagnosticsTopic) (SubscriptionUnsubscribe 11)
   \<and> subscriptions (run [Subscribe 1, Subscribe 2, Resolve 0 10, Resolve 1 11, Idle,
                          Unsubscribe None] diagnosticsTopic) = []
   \<and> trace (run [Subscribe 1, Subscribe 2, Resolve 0 10, Resolve 1 11, Idle,
                  Unsubscribe None] diagnosticsTopic)
       = [CreateSubscription ''/ns/diagnostics_agg'' 1, CreateSubscription ''/ns/diagnostics_agg'' 2,
          SubscriptionUnsubscribe 10, SubscriptionUnsubscribe 11]
   \<and> count_list (trace (run [Subscribe 1, Subscribe 2, Resolve 0 10, Resolve 1 11, Idle,
                  Unsubscribe None] diagnosticsTopic)) (SubscriptionUnsubscribe 10) = 1
   \<and> count_list (trace (run [Subscribe 1, Subscribe 2, Resolve 0 10, Resolve 1 11, Idle,
                  Unsubscribe None] diagnosticsTopic)) (SubscriptionUnsubscribe 11) = 1
   \<and> subscriptions diagnosticsTopic = []
   \<and> unsubscribe None diagnosticsTopic = (Returned, diagnosticsTopic)"
  using unsubscribe_all_clears
    [where w = "run [Subscribe 1, Subscribe 2, Resolve 0 10, Resolve 1 11, Idle] diagnosticsTopic"]
    unsubscribe_all_clears [where w = diagnosticsTopic]
  by (simp add: diagnosticsTopic_def new_Topic_def subscribe_def Let_def invoke_def
      resolve_def drain_def tick_def map_values_def)

subsection \<open>C7: unsubscribe before the subscription resolves\<close>

text \<open>
  Claim C7: when \<^verbatim>\<open>unsubscribe\<close> (with or without a callback) runs between
  \<^verbatim>\<open>subscribe(cb)\<close> and the resolution of its request, the handle \<open>h\<close> is still stored
  under \<open>cb\<close> once the request resolves, and the resolution adds no call: the calls made
  are those of \<^verbatim>\<open>subscribe\<close> and \<^verbatim>\<open>unsubscribe\<close> alone. A handle that was neither in the map
  nor unsubscribed before is therefore not unsubscribed by the Topic.
\<close>

theorem unsubscribe_misses_pending_subscription:
  assumes "rosImpl w" "\<not> raises w (CreateSubscription (name w) cb)" "microtasks w = []"
  shows "map_of (subscriptions (run [Subscribe cb, Unsubscribe cbo,
                                     Resolve (length (promises w)) h, Idle] w)) cb = Some h
       \<and> trace (run [Subscribe cb, Unsubscribe cbo, Resolve (length (promises w)) h, Idle] w)
           = trace (run [Subscribe cb, Unsubscribe cbo] w)
       \<and> (h \<notin> snd ` set (subscriptions w) \<and> SubscriptionUnsubscribe h \<notin> set (trace w) \<longrightarrow>
            SubscriptionUnsubscribe h \<notin>
              set (trace (run [Subscribe cb, Unsubscribe cbo,
                               Resolve (length (promises w)) h, Idle] w)))"
proof -
  let ?w1 = "w\<lparr>promises := promises w @ [Pending [ThenSet cb]],
                trace := trace w @ [CreateSubscription (name w) cb]\<rparr>"
  let ?w2 = "snd (unsubscribe cbo ?w1)"
  let ?w3 = "?w2\<lparr>promises := (promises ?w2)[length (promises w) := Fulfilled h],
                  microtasks := [(ThenSet cb, h)]\<rparr>"
  let ?w4 = "?w3\<lparr>microtasks := [], subscriptions := map_set cb h (subscriptions ?w2)\<rparr>"
  have f: "promises ?w2 = promises w @ [Pending [ThenSet cb]]" "microtasks ?w2 = []"
    using unsubscribe_frame [of cbo ?w1] assms by simp_all
  have t: "set (trace ?w2) \<subseteq> set (trace w) \<union> {CreateSubscription (name w) cb}
             \<union> SubscriptionUnsubscribe ` snd ` set (subscriptions w)"
    using unsubscribe_frame [of cbo ?w1] by auto
  have r2: "run [Subscribe cb, Unsubscribe cbo] w = ?w2"
    using assms by (simp add: subscribe_ok)
  have "resolve (length (promises w)) h ?w2 = ?w3"
    by (simp add: resolve_def f)
  moreover have "drain ?w3 = ?w4"
    by (simp add: drain_def tick_def)
  ultimately have r4:
    "run [Subscribe cb, Unsubscribe cbo, Resolve (length (promises w)) h, Idle] w = ?w4"
    using assms by (simp add: subscribe_ok)
  have "map_of (subscriptions ?w4) cb = Some h"
    by (simp add: map_of_map_set)
  moreover have "trace ?w4 = trace ?w2"
    by simp
  moreover have "SubscriptionUnsubscribe h \<notin> set (trace ?w4)"
    if "h \<notin> snd ` set (subscriptions w) \<and> SubscriptionUnsubscribe h \<notin> set (trace w)"
    using that t by auto
  ultimately show ?thesis
    unfolding r4 r2 by blast
qed

theorem unsubscribe_misses_pending_subscription_witness:
  "rosImpl diagnosticsTopic \<and> microtasks diagnosticsTopic = []
   \<and> \<not> raises diagnosticsTopic (CreateSubscription (name diagnosticsTopic) 1)
   \<and> map_of (subscriptions (run [Subscribe 1, Unsubscribe None, Resolve 0 10, Idle]
        diagnosticsTopic)) 1 = Some 10
   \<and> SubscriptionUnsubscribe 10 \<notin>
        set (trace (run [Subscribe 1, Unsubscribe None, Resolve 0 10, Idle] diagnosticsTopic))"
  using unsubscribe_misses_pending_subscription
    [where w = diagnosticsTopic and cb = 1 and cbo = None and h = 10]
  by (simp add: diagnosticsTopic_def new_Topic_def subscribe_def Let_def invoke_def
      resolve_def drain_def tick_def map_values_def)

subsection \<open>C8: a rejected subscription request\<close>

text \<open>
  Claim C8: when the connection rejects the \<^verbatim>\<open>createSubscription\<close> request of
  \<^verbatim>\<open>subscribe(cb)\<close>, the call itself returns, and \<open>cb\<close> is never added to the map: for a
  callback that had no entry and no request in flight, whatever events follow the
  rejection (short of another \<^verbatim>\<open>subscribe(cb)\<close>), the map has no entry for \<open>cb\<close>. The Topic
  itself never invokes a callback (no call of the model does); messages are delivered by
  the connection through a subscription, and none exists for this request.
\<close>

theorem rejected_subscription_never_registered:
  assumes "rosImpl w" "\<not> raises w (CreateSubscription (name w) cb)"
    "inert cb w" "Subscribe cb \<notin> set es"
  shows "fst (subscribe cb w) = Returned
       \<and> map_of (subscriptions (run (Subscribe cb # Reject (length (promises w)) # es) w)) cb
           = None"
proof -
  let ?w2 = "w\<lparr>promises := promises w @ [Rejected],
                trace := trace w @ [CreateSubscription (name w) cb]\<rparr>"
  have r: "run [Subscribe cb, Reject (length (promises w))] w = ?w2"
    using assms(1,2) by (simp add: subscribe_ok reject_def)
  have "inert cb ?w2"
    using assms(3) by (simp add: inert_def)
  then have "inert cb (run es ?w2)"
    using assms(4) by (rule inert_run)
  moreover have "run (Subscribe cb # Reject (length (promises w)) # es) w = run es ?w2"
    using r by simp
  ultimately show ?thesis
    using assms(1,2) by (simp add: inert_def subscribe_ok)
qed

theorem rejected_subscription_never_registered_witness:
  "rosImpl diagnosticsTopic \<and> inert 0 diagnosticsTopic
   \<and> \<not> raises diagnosticsTopic (CreateSubscription (name diagnosticsTopic) 0)
   \<and> Subscribe 0 \<notin> set [Resolve 0 10, Idle, Subscribe 1, Resolve 1 11, Idle, Publish ''m'']
   \<and> fst (subscribe 0 diagnosticsTopic) = Returned
   \<and> map_of (subscriptions (run [Subscribe 0, Reject 0, Resolve 0 10, Idle, Subscribe 1,
                                  Resolve 1 11, Idle, Publish ''m''] diagnosticsTopic)) 0 = None"
  using rejected_subscription_never_registered
    [where w = diagnosticsTopic and cb = 0
       and es = "[Resolve 0 10, Idle, Subscribe 1, Resolve 1 11, Idle, Publish ''m'']"]
  by (simp add: diagnosticsTopic_def new_Topic_def inert_def)

subsection \<open>C9: unsubscribing an unknown callback\<close>

text \<open>
  Claim C9: for a callback with no entry in the map, \<^verbatim>\<open>unsubscribe(cb)\<close> returns and
  leaves everything as it was: the map is unchanged and no call is made on any handle.
\<close>

theorem unsubscribe_unknown_callback_noop:
  assumes "map_of (subscriptions w) cb = None"
  shows "unsubscribe (Some cb) w = (Returned, w)"
  using assms by (simp add: map_delete_absent)

theorem unsubscribe_unknown_callback_noop_witness:
  "map_of (subscriptions (run [Subscribe 1, Resolve 0 10, Idle] diagnosticsTopic)) 2 = None
   \<and> unsubscribe (Some 2) (run [Subscribe 1, Resolve 0 10, Idle] diagnosticsTopic)
       = (Returned, run [Subscribe 1, Resolve 0 10, Idle] diagnosticsTopic)"
  using unsubscribe_unknown_callback_noop
    [where w = "run [Subscribe 1, Resolve 0 10, Idle] diagnosticsTopic" and cb = 2]
  by (simp add: diagnosticsTopic_def new_Topic_def subscribe_def Let_def invoke_def
      resolve_def drain_def tick_def)

subsection \<open>C10: name and messageType\<close>

text \<open>
  Claim C10: after any sequence of events on a Topic constructed with a name and a
  message type (method calls, settled promises, callbacks run) the getters \<^verbatim>\<open>name\<close> and
  \<^verbatim>\<open>messageType\<close> return the values given to the constructor.
\<close>

theorem name_and_messageType_immutable:
  "name (run es (new_Topic impl r n t)) = n \<and> messageType (run es (new_Topic impl r n t)) = t"
  by (simp add: run_name new_Topic_def)

end
